theory Spec2Isabelle
  imports Main "HOL-Library.Word"
begin

section \<open>Data model\<close>

text \<open>
  Timestamps (\<^verbatim>\<open>time.Now().UnixNano()\<close>), durations (\<^verbatim>\<open>time.Duration\<close>) and the
  \<^verbatim>\<open>expiration\<close> field are Go \<^verbatim>\<open>int64\<close>: 64-bit words read as two's complement by
  \<open>sint\<close>, with wrapping addition.
\<close>

type_synonym int64 = "64 word"

text \<open>
  \<^verbatim>\<open>type item[V any] struct { value V; expiration int64 }\<close>
  (the field \<^verbatim>\<open>value\<close> is called \<open>ivalue\<close> here).
\<close>

record 'v item =
  ivalue :: 'v
  expiration :: int64

text \<open>
  A Go \<^verbatim>\<open>map[K]V\<close> is the list of its entries. The order of the list stands for the
  order in which a \<^verbatim>\<open>range\<close> statement yields the entries; Go leaves that order
  unspecified, and every statement below is over all stores, hence over all orders.

  The map compares keys with the \<^verbatim>\<open>==\<close> of the key type \<^verbatim>\<open>K comparable\<close>, which every
  map primitive takes as its first argument \<open>eq\<close>. It need not be reflexive: for
  \<^verbatim>\<open>K = float64\<close> a NaN key equals no key, itself included, so a lookup or a delete of NaN
  finds nothing and an assignment to NaN always adds an entry.
\<close>

type_synonym ('k, 'v) gomap = "('k \<times> 'v) list"

type_synonym 'k keyeq = "'k \<Rightarrow> 'k \<Rightarrow> bool"

text \<open>\<^verbatim>\<open>v, found := m[key]\<close>: the entry whose key equals \<open>key\<close>, if there is one.\<close>

fun map_lookup :: "'k keyeq \<Rightarrow> ('k, 'v) gomap \<Rightarrow> 'k \<Rightarrow> 'v option" where
  "map_lookup eq [] key = None"
| "map_lookup eq ((k, v) # rest) key =
     (if eq k key then Some v else map_lookup eq rest key)"

text \<open>
  \<^verbatim>\<open>m[key] = v\<close>: the entry whose key equals \<open>key\<close> is overwritten in place (the runtime
  writes the new key too, for key types where equal keys can differ, such as the two
  floating-point zeros); without such an entry a new one is added.
\<close>

fun map_store :: "'k keyeq \<Rightarrow> 'k \<Rightarrow> 'v \<Rightarrow> ('k, 'v) gomap \<Rightarrow> ('k, 'v) gomap" where
  "map_store eq key v [] = [(key, v)]"
| "map_store eq key v ((k, v') # rest) =
     (if eq k key then (key, v) # rest else (k, v') # map_store eq key v rest)"

text \<open>\<^verbatim>\<open>delete(m, key)\<close>: the entry whose key equals \<open>key\<close> goes; no such entry, no change.\<close>

fun map_delete :: "'k keyeq \<Rightarrow> 'k \<Rightarrow> ('k, 'v) gomap \<Rightarrow> ('k, 'v) gomap" where
  "map_delete eq key [] = []"
| "map_delete eq key ((k, v) # rest) =
     (if eq k key then map_delete eq key rest else (k, v) # map_delete eq key rest)"

text \<open>
  The invariant of a Go map: no two entries have equal keys. (Keys that equal no key,
  such as NaN, may occur many times.)
\<close>

fun distinct_keys :: "'k keyeq \<Rightarrow> 'k list \<Rightarrow> bool" where
  "distinct_keys eq [] = True"
| "distinct_keys eq (k # ks) = (list_all (\<lambda>k'. \<not> eq k k') ks \<and> distinct_keys eq ks)"

definition wf_map :: "'k keyeq \<Rightarrow> ('k, 'v) gomap \<Rightarrow> bool" where
  "wf_map eq m = distinct_keys eq (map fst m)"

text \<open>Every key of the map equals itself (\<^verbatim>\<open>k == k\<close>): the map holds no NaN-like key.\<close>

definition self_equal :: "'k keyeq \<Rightarrow> ('k, 'v) gomap \<Rightarrow> bool" where
  "self_equal eq m = list_all (\<lambda>k. eq k k) (map fst m)"

text \<open>
  A key type with a key that equals no key, for \<^verbatim>\<open>K = float64\<close>: NaN and the numbers
  (integers are enough here), with the \<^verbatim>\<open>==\<close> of floating-point values.
\<close>

datatype f64 = NaN | Num int

fun f64_eq :: "f64 keyeq" where
  "f64_eq (Num a) (Num b) = (a = b)"
| "f64_eq _ _ = False"

text \<open>The channel \<^verbatim>\<open>done chan struct{}\<close>: nil, open, or closed.\<close>

datatype chan = ChanNil | ChanOpen | ChanClosed

datatype panic = CloseOfNilChannel | CloseOfClosedChannel

text \<open>
  \<^verbatim>\<open>type cache[K comparable, V any] struct { items; mu; defaultTTL; running; done }\<close>.
  The model is sequential, so the lock \<^verbatim>\<open>mu\<close> has no field; \<^verbatim>\<open>done\<close> is \<open>done_ch\<close>.
\<close>

record ('k, 'v) cache =
  items :: "('k, 'v item) gomap"
  defaultTTL :: int64
  running :: bool
  done_ch :: chan

text \<open>The two wrappers embed the core cache; the bounded one adds \<^verbatim>\<open>maxSize\<close>.\<close>

record ('k, 'v) cacheWithSize =
  sized_cache :: "('k, 'v) cache"
  maxSize :: int

record ('k, 'v) cacheWithoutSize =
  unsized_cache :: "('k, 'v) cache"

text \<open>The interface value returned by \<^verbatim>\<open>New\<close>: one of the two wrappers.\<close>

datatype ('k, 'v) Cache =
  WithSize "('k, 'v) cacheWithSize"
| WithoutSize "('k, 'v) cacheWithoutSize"

section \<open>Expiration\<close>

text \<open>
  \<^verbatim>\<open>func (item item[V]) isExpired(now int64) bool\<close>
\<close>

definition isExpired :: "'v item \<Rightarrow> int64 \<Rightarrow> bool" where
  "isExpired it now =
     (if expiration it = 0 then False else sint now > sint (expiration it))"

text \<open>
  The prologue shared by the four \<^verbatim>\<open>Set...WithTTL\<close> methods:
  \<^verbatim>\<open>var expiration int64; if ttl > 0 { expiration = time.Now().Add(ttl).UnixNano() }\<close>.
  The clock reading \<open>now\<close> is an input; \<^verbatim>\<open>Add\<close> followed by \<^verbatim>\<open>UnixNano\<close> is the wrapping
  sum of the two 64-bit values.
\<close>

definition expirationFor :: "int64 \<Rightarrow> int64 \<Rightarrow> int64" where
  "expirationFor now ttl = (if 0 < sint ttl then now + ttl else 0)"

section \<open>Read path of the core cache\<close>

text \<open>
  Methods with a pointer receiver return the cache next to their result, so that what
  they leave in the store is part of the model. \<open>zeroV\<close> is \<^verbatim>\<open>*new(V)\<close>.
\<close>

definition Get ::
  "'k keyeq \<Rightarrow> 'v \<Rightarrow> 'k \<Rightarrow> ('k, 'v) cache \<Rightarrow> ('v \<times> bool) \<times> ('k, 'v) cache" where
  "Get eq zeroV key c =
     (case map_lookup eq (items c) key of
        Some it \<Rightarrow> ((ivalue it, True), c)
      | None \<Rightarrow> ((zeroV, False), c))"

definition GetSafe ::
  "'k keyeq \<Rightarrow> 'v \<Rightarrow> int64 \<Rightarrow> 'k \<Rightarrow> ('k, 'v) cache \<Rightarrow> ('v \<times> bool) \<times> ('k, 'v) cache" where
  "GetSafe eq zeroV now key c =
     (case map_lookup eq (items c) key of
        Some it \<Rightarrow>
          if \<not> isExpired it now then ((ivalue it, True), c) else ((zeroV, False), c)
      | None \<Rightarrow> ((zeroV, False), c))"

definition GetValue ::
  "'k keyeq \<Rightarrow> 'v \<Rightarrow> 'k \<Rightarrow> ('k, 'v) cache \<Rightarrow> 'v \<times> ('k, 'v) cache" where
  "GetValue eq zeroV key c =
     (case map_lookup eq (items c) key of
        Some it \<Rightarrow> (ivalue it, c)
      | None \<Rightarrow> (zeroV, c))"

definition Size :: "('k, 'v) cache \<Rightarrow> int" where
  "Size c = int (length (items c))"

definition IsEmpty :: "('k, 'v) cache \<Rightarrow> bool" where
  "IsEmpty c = (Size c = 0)"

section \<open>Deletion, sweep and lifecycle of the core cache\<close>

definition Remove :: "'k keyeq \<Rightarrow> 'k \<Rightarrow> ('k, 'v) cache \<Rightarrow> ('k, 'v) cache" where
  "Remove eq key c = c\<lparr>items := map_delete eq key (items c)\<rparr>"

text \<open>
  The scan loop of \<^verbatim>\<open>CleanExpired\<close>:
  \<^verbatim>\<open>for key, item := range c.items { if item.isExpired(now) { keys = append(keys, key) } }\<close>
\<close>

fun collectExpired :: "int64 \<Rightarrow> ('k, 'v item) gomap \<Rightarrow> 'k list \<Rightarrow> 'k list" where
  "collectExpired now [] keys = keys"
| "collectExpired now ((key, it) # rest) keys =
     collectExpired now rest (if isExpired it now then keys @ [key] else keys)"

text \<open>
  The delete loop: \<^verbatim>\<open>for _, key := range keys { delete(c.items, key) }\<close>
\<close>

fun deleteKeys :: "'k keyeq \<Rightarrow> 'k list \<Rightarrow> ('k, 'v) gomap \<Rightarrow> ('k, 'v) gomap" where
  "deleteKeys eq [] its = its"
| "deleteKeys eq (key # keys) its = deleteKeys eq keys (map_delete eq key its)"

definition CleanExpired :: "'k keyeq \<Rightarrow> int64 \<Rightarrow> ('k, 'v) cache \<Rightarrow> ('k, 'v) cache" where
  "CleanExpired eq now c =
     (let keys = collectExpired now (items c) []
      in c\<lparr>items := deleteKeys eq keys (items c)\<rparr>)"

text \<open>The builtin \<^verbatim>\<open>close(ch)\<close> panics on a nil and on a closed channel.\<close>

fun close_chan :: "chan \<Rightarrow> panic + chan" where
  "close_chan ChanNil = Inl CloseOfNilChannel"
| "close_chan ChanClosed = Inl CloseOfClosedChannel"
| "close_chan ChanOpen = Inr ChanClosed"

definition Close :: "('k, 'v) cache \<Rightarrow> panic + ('k, 'v) cache" where
  "Close c =
     (if running c then
        (case close_chan (done_ch c) of
           Inl p \<Rightarrow> Inl p
         | Inr ch \<Rightarrow> Inr (c\<lparr>running := False, done_ch := ch, items := []\<rparr>))
      else Inr (c\<lparr>items := []\<rparr>))"

text \<open>
  \<^verbatim>\<open>resetItems\<close> and \<^verbatim>\<open>Clear\<close> install a fresh empty map; the capacity hint of the
  bounded variant does not change the contents.
\<close>

definition resetItems :: "('k, 'v) cache \<Rightarrow> ('k, 'v) cache" where
  "resetItems c = c\<lparr>items := []\<rparr>"

definition cacheWithoutSize_Clear :: "('k, 'v) cacheWithoutSize \<Rightarrow> ('k, 'v) cacheWithoutSize" where
  "cacheWithoutSize_Clear w = w\<lparr>unsized_cache := resetItems (unsized_cache w)\<rparr>"

definition cacheWithSize_Clear :: "('k, 'v) cacheWithSize \<Rightarrow> ('k, 'v) cacheWithSize" where
  "cacheWithSize_Clear w = w\<lparr>sized_cache := resetItems (sized_cache w)\<rparr>"

section \<open>Write path without a size limit\<close>

definition cacheWithoutSize_SetWithTTL ::
  "'k keyeq \<Rightarrow> int64 \<Rightarrow> 'k \<Rightarrow> 'v \<Rightarrow> int64 \<Rightarrow> ('k, 'v) cacheWithoutSize
     \<Rightarrow> ('k, 'v) cacheWithoutSize" where
  "cacheWithoutSize_SetWithTTL eq now key val ttl w =
     (let expiration = expirationFor now ttl;
          c = unsized_cache w
      in w\<lparr>unsized_cache :=
             c\<lparr>items := map_store eq key \<lparr>ivalue = val, expiration = expiration\<rparr> (items c)\<rparr>\<rparr>)"

definition cacheWithoutSize_Set ::
  "'k keyeq \<Rightarrow> int64 \<Rightarrow> 'k \<Rightarrow> 'v \<Rightarrow> ('k, 'v) cacheWithoutSize \<Rightarrow> ('k, 'v) cacheWithoutSize" where
  "cacheWithoutSize_Set eq now key val w =
     cacheWithoutSize_SetWithTTL eq now key val (defaultTTL (unsized_cache w)) w"

text \<open>
  The insert loop of both \<^verbatim>\<open>SetAllWithTTL\<close> methods:
  \<^verbatim>\<open>for key, value := range m { c.items[key] = &item[V]{value, expiration} }\<close>
\<close>

fun setEntries ::
  "'k keyeq \<Rightarrow> ('k, 'v) gomap \<Rightarrow> int64 \<Rightarrow> ('k, 'v item) gomap \<Rightarrow> ('k, 'v item) gomap" where
  "setEntries eq [] e its = its"
| "setEntries eq ((key, val) # m) e its =
     setEntries eq m e (map_store eq key \<lparr>ivalue = val, expiration = e\<rparr> its)"

definition cacheWithoutSize_SetAllWithTTL ::
  "'k keyeq \<Rightarrow> int64 \<Rightarrow> ('k, 'v) gomap \<Rightarrow> int64 \<Rightarrow> ('k, 'v) cacheWithoutSize
     \<Rightarrow> ('k, 'v) cacheWithoutSize" where
  "cacheWithoutSize_SetAllWithTTL eq now m ttl w =
     (let expiration = expirationFor now ttl;
          c = unsized_cache w
      in w\<lparr>unsized_cache := c\<lparr>items := setEntries eq m expiration (items c)\<rparr>\<rparr>)"

definition cacheWithoutSize_SetAll ::
  "'k keyeq \<Rightarrow> int64 \<Rightarrow> ('k, 'v) gomap \<Rightarrow> ('k, 'v) cacheWithoutSize \<Rightarrow> ('k, 'v) cacheWithoutSize" where
  "cacheWithoutSize_SetAll eq now m w =
     cacheWithoutSize_SetAllWithTTL eq now m (defaultTTL (unsized_cache w)) w"

section \<open>Write path with a size limit\<close>

text \<open>
  \<^verbatim>\<open>for k := range c.items { delete(c.items, k); break }\<close>: \<^verbatim>\<open>delete\<close> is called on
  the first key the range yields.
\<close>

fun evictFirst :: "'k keyeq \<Rightarrow> ('k, 'v) gomap \<Rightarrow> ('k, 'v) gomap" where
  "evictFirst eq [] = []"
| "evictFirst eq ((k, v) # rest) = map_delete eq k ((k, v) # rest)"

text \<open>
  The size check of \<^verbatim>\<open>cacheWithSize.SetWithTTL\<close>:
  \<^verbatim>\<open>if len(c.items)+1 > c.maxSize { if _, found := c.items[key]; !found { ... } }\<close>
\<close>

definition evictForKey :: "'k keyeq \<Rightarrow> int \<Rightarrow> 'k \<Rightarrow> ('k, 'v) gomap \<Rightarrow> ('k, 'v) gomap" where
  "evictForKey eq mx key its =
     (if int (length its) + 1 > mx then
        (case map_lookup eq its key of None \<Rightarrow> evictFirst eq its | Some _ \<Rightarrow> its)
      else its)"

definition cacheWithSize_SetWithTTL ::
  "'k keyeq \<Rightarrow> int64 \<Rightarrow> 'k \<Rightarrow> 'v \<Rightarrow> int64 \<Rightarrow> ('k, 'v) cacheWithSize \<Rightarrow> ('k, 'v) cacheWithSize" where
  "cacheWithSize_SetWithTTL eq now key val ttl w =
     (let expiration = expirationFor now ttl;
          c = sized_cache w;
          its = evictForKey eq (maxSize w) key (items c)
      in w\<lparr>sized_cache :=
             c\<lparr>items := map_store eq key \<lparr>ivalue = val, expiration = expiration\<rparr> its\<rparr>\<rparr>)"

definition cacheWithSize_Set ::
  "'k keyeq \<Rightarrow> int64 \<Rightarrow> 'k \<Rightarrow> 'v \<Rightarrow> ('k, 'v) cacheWithSize \<Rightarrow> ('k, 'v) cacheWithSize" where
  "cacheWithSize_Set eq now key val w =
     cacheWithSize_SetWithTTL eq now key val (defaultTTL (sized_cache w)) w"

text \<open>
  The eviction loop of \<^verbatim>\<open>cacheWithSize.SetAllWithTTL\<close>, over the keys \<open>ks\<close> the range
  yields, with the counter \<open>i\<close>:
  \<^verbatim>\<open>for k := range c.items { delete(c.items, k); i++; if i >= x || len(c.items) == 0 { break } }\<close>
\<close>

fun evictLoop ::
  "'k keyeq \<Rightarrow> int \<Rightarrow> int \<Rightarrow> 'k list \<Rightarrow> ('k, 'v) gomap \<Rightarrow> ('k, 'v) gomap" where
  "evictLoop eq x i [] its = its"
| "evictLoop eq x i (k # ks) its =
     (let its' = map_delete eq k its;
          i' = i + 1
      in if i' \<ge> x \<or> length its' = 0 then its' else evictLoop eq x i' ks its')"

text \<open>
  The size check of \<^verbatim>\<open>cacheWithSize.SetAllWithTTL\<close>, with \<open>lenm\<close> for \<^verbatim>\<open>len(m)\<close>:
  \<^verbatim>\<open>if newSize := len(c.items) + len(m); newSize > c.maxSize { x := newSize - c.maxSize; ... }\<close>
\<close>

definition evictForBatch :: "'k keyeq \<Rightarrow> int \<Rightarrow> int \<Rightarrow> ('k, 'v) gomap \<Rightarrow> ('k, 'v) gomap" where
  "evictForBatch eq mx lenm its =
     (let newSize = int (length its) + lenm
      in if newSize > mx then
           (let x = newSize - mx
            in if int (length its) \<le> x then [] else evictLoop eq x 0 (map fst its) its)
         else its)"

definition cacheWithSize_SetAllWithTTL ::
  "'k keyeq \<Rightarrow> int64 \<Rightarrow> ('k, 'v) gomap \<Rightarrow> int64 \<Rightarrow> ('k, 'v) cacheWithSize
     \<Rightarrow> ('k, 'v) cacheWithSize" where
  "cacheWithSize_SetAllWithTTL eq now m ttl w =
     (let expiration = expirationFor now ttl;
          c = sized_cache w;
          its = evictForBatch eq (maxSize w) (int (length m)) (items c)
      in w\<lparr>sized_cache := c\<lparr>items := setEntries eq m expiration its\<rparr>\<rparr>)"

definition cacheWithSize_SetAll ::
  "'k keyeq \<Rightarrow> int64 \<Rightarrow> ('k, 'v) gomap \<Rightarrow> ('k, 'v) cacheWithSize \<Rightarrow> ('k, 'v) cacheWithSize" where
  "cacheWithSize_SetAll eq now m w =
     cacheWithSize_SetAllWithTTL eq now m (defaultTTL (sized_cache w)) w"

section \<open>Construction and interface dispatch\<close>

text \<open>The core cache behind an interface value (the embedded \<^verbatim>\<open>*cache\<close>).\<close>

fun core :: "('k, 'v) Cache \<Rightarrow> ('k, 'v) cache" where
  "core (WithSize w) = sized_cache w"
| "core (WithoutSize w) = unsized_cache w"

fun with_core :: "(('k, 'v) cache \<Rightarrow> ('k, 'v) cache) \<Rightarrow> ('k, 'v) Cache \<Rightarrow> ('k, 'v) Cache" where
  "with_core f (WithSize w) = WithSize (w\<lparr>sized_cache := f (sized_cache w)\<rparr>)"
| "with_core f (WithoutSize w) = WithoutSize (w\<lparr>unsized_cache := f (unsized_cache w)\<rparr>)"

text \<open>
  \<^verbatim>\<open>func New[K comparable, V any](defaultTTL, cleanupInterval time.Duration, maxSize int)\<close>.
  Starting the ticker goroutine is recorded as \<open>running = True\<close> with an open channel;
  the finalizer is not modelled.
\<close>

definition New :: "int64 \<Rightarrow> int64 \<Rightarrow> int \<Rightarrow> ('k, 'v) Cache" where
  "New dTTL cleanupInterval mx =
     (let c = \<lparr>items = [], defaultTTL = dTTL, running = False, done_ch = ChanNil\<rparr>;
          wrapped = (if mx > 0 then WithSize \<lparr>sized_cache = c, maxSize = mx\<rparr>
                     else WithoutSize \<lparr>unsized_cache = c\<rparr>);
          wrapped = with_core resetItems wrapped
      in if 0 < sint cleanupInterval
         then with_core (\<lambda>c. c\<lparr>running := True, done_ch := ChanOpen\<rparr>) wrapped
         else wrapped)"

fun Cache_Set :: "'k keyeq \<Rightarrow> int64 \<Rightarrow> 'k \<Rightarrow> 'v \<Rightarrow> ('k, 'v) Cache \<Rightarrow> ('k, 'v) Cache" where
  "Cache_Set eq now key val (WithSize w) = WithSize (cacheWithSize_Set eq now key val w)"
| "Cache_Set eq now key val (WithoutSize w) = WithoutSize (cacheWithoutSize_Set eq now key val w)"

fun Cache_SetAll :: "'k keyeq \<Rightarrow> int64 \<Rightarrow> ('k, 'v) gomap \<Rightarrow> ('k, 'v) Cache \<Rightarrow> ('k, 'v) Cache" where
  "Cache_SetAll eq now m (WithSize w) = WithSize (cacheWithSize_SetAll eq now m w)"
| "Cache_SetAll eq now m (WithoutSize w) = WithoutSize (cacheWithoutSize_SetAll eq now m w)"

definition Cache_Size :: "('k, 'v) Cache \<Rightarrow> int" where
  "Cache_Size w = Size (core w)"

section \<open>Facts about the map primitives\<close>

lemma map_lookup_None_iff:
  "(map_lookup eq its key = None) = (\<forall>p \<in> set its. \<not> eq (fst p) key)"
  by (induction its) (auto split: if_splits)

lemma map_lookup_SomeD:
  "map_lookup eq its key = Some v \<Longrightarrow> \<exists>k. (k, v) \<in> set its \<and> eq k key"
  by (induction its) (auto split: if_splits)

lemma map_delete_filter:
  "map_delete eq key its = filter (\<lambda>p. \<not> eq (fst p) key) its"
  by (induction its) auto

lemma map_delete_id:
  "\<forall>p \<in> set its. \<not> eq (fst p) key \<Longrightarrow> map_delete eq key its = its"
  by (induction its) auto

lemma deleteKeys_filter:
  "deleteKeys eq ks its = filter (\<lambda>p. \<forall>key \<in> set ks. \<not> eq (fst p) key) its"
  by (induction ks arbitrary: its) (auto simp: map_delete_filter intro: filter_cong)

lemma deleteKeys_Nil: "deleteKeys eq ks [] = []"
  by (simp add: deleteKeys_filter)

lemma map_lookup_store:
  assumes s: "symp eq" and t: "transp eq"
  shows "map_lookup eq (map_store eq key v its) k
           = (if eq key k then Some v else map_lookup eq its k)"
proof (induction its)
  case Nil
  then show ?case by simp
next
  case (Cons p its)
  obtain k' v' where p: "p = (k', v')" by (cases p)
  show ?case
  proof (cases "eq k' key")
    case True
    have "eq k' k = eq key k"
      using True s t by (meson sympD transpD)
    with True p show ?thesis by simp
  next
    case False
    have "\<not> (eq k' k \<and> eq key k)"
      using False s t by (meson sympD transpD)
    with False p Cons.IH show ?thesis by auto
  qed
qed

lemma map_lookup_delete:
  assumes s: "symp eq" and t: "transp eq"
  shows "map_lookup eq (map_delete eq key its) k
           = (if eq key k then None else map_lookup eq its k)"
proof (induction its)
  case Nil
  then show ?case by simp
next
  case (Cons p its)
  obtain k' v' where p: "p = (k', v')" by (cases p)
  show ?case
  proof (cases "eq k' key")
    case True
    have "eq k' k = eq key k"
      using True s t by (meson sympD transpD)
    with True p Cons.IH show ?thesis by simp
  next
    case False
    have "\<not> (eq k' k \<and> eq key k)"
      using False s t by (meson sympD transpD)
    with False p Cons.IH show ?thesis by auto
  qed
qed

lemma length_map_store:
  "length (map_store eq key v its)
     = (if map_lookup eq its key = None then Suc (length its) else length its)"
  by (induction its) (auto split: if_splits)

lemma map_store_new:
  "map_lookup eq its key = None \<Longrightarrow> map_store eq key v its = its @ [(key, v)]"
  by (induction its) (auto split: if_splits)

lemma keys_map_store_mem:
  "p \<in> set (map_store eq key v its) \<Longrightarrow> fst p = key \<or> fst p \<in> fst ` set its"
  by (induction its) (auto split: if_splits)

lemma wf_map_store:
  assumes s: "symp eq" and t: "transp eq"
  shows "wf_map eq its \<Longrightarrow> wf_map eq (map_store eq key v its)"
proof (induction its)
  case Nil
  then show ?case by (simp add: wf_map_def)
next
  case (Cons p its)
  obtain k' v' where p: "p = (k', v')" by (cases p)
  from Cons.prems p have head: "\<forall>q \<in> set its. \<not> eq k' (fst q)" and wf': "wf_map eq its"
    by (auto simp: wf_map_def list_all_iff)
  show ?case
  proof (cases "eq k' key")
    case True
    have "\<forall>q \<in> set its. \<not> eq key (fst q)"
    proof
      fix q assume q: "q \<in> set its"
      show "\<not> eq key (fst q)"
      proof
        assume "eq key (fst q)"
        with True t have "eq k' (fst q)" by (meson transpD)
        with head q show False by simp
      qed
    qed
    with True p wf' show ?thesis by (simp add: wf_map_def list_all_iff)
  next
    case False
    have "\<forall>q \<in> set (map_store eq key v its). \<not> eq k' (fst q)"
    proof
      fix q assume "q \<in> set (map_store eq key v its)"
      then have "fst q = key \<or> fst q \<in> fst ` set its" by (rule keys_map_store_mem)
      with head False show "\<not> eq k' (fst q)" by auto
    qed
    with False p Cons.IH [OF wf'] show ?thesis by (simp add: wf_map_def list_all_iff)
  qed
qed

lemma list_all_filter_keys:
  "list_all P (map fst its) \<Longrightarrow> list_all P (map fst (filter Q its))"
  by (induction its) auto

lemma distinct_keys_filter:
  "distinct_keys eq (map fst its) \<Longrightarrow> distinct_keys eq (map fst (filter Q its))"
  by (induction its) (auto simp: list_all_filter_keys)

lemma wf_map_delete: "wf_map eq its \<Longrightarrow> wf_map eq (map_delete eq key its)"
  by (simp add: wf_map_def map_delete_filter distinct_keys_filter)

lemma wf_deleteKeys: "wf_map eq its \<Longrightarrow> wf_map eq (deleteKeys eq ks its)"
  by (simp add: wf_map_def deleteKeys_filter distinct_keys_filter)

lemma self_equal_store:
  "self_equal eq its \<Longrightarrow> eq key key \<Longrightarrow> self_equal eq (map_store eq key v its)"
proof -
  assume self: "self_equal eq its" and kk: "eq key key"
  have "\<forall>q \<in> set (map_store eq key v its). eq (fst q) (fst q)"
  proof
    fix q assume "q \<in> set (map_store eq key v its)"
    then have "fst q = key \<or> fst q \<in> fst ` set its" by (rule keys_map_store_mem)
    with self kk show "eq (fst q) (fst q)" by (auto simp: self_equal_def list_all_iff)
  qed
  then show ?thesis by (simp add: self_equal_def list_all_iff)
qed

lemma self_equal_filter: "self_equal eq its \<Longrightarrow> self_equal eq (filter Q its)"
  by (simp add: self_equal_def list_all_filter_keys)

text \<open>In a well-formed map two entries with equal keys are one entry.\<close>

lemma wf_map_unique:
  assumes s: "symp eq"
  shows "wf_map eq its \<Longrightarrow> (k, v) \<in> set its \<Longrightarrow> (k', v') \<in> set its \<Longrightarrow> eq k k' \<Longrightarrow>
         (k, v) = (k', v')"
proof (induction its)
  case Nil
  then show ?case by simp
next
  case (Cons p its)
  obtain k0 v0 where p: "p = (k0, v0)" by (cases p)
  from Cons.prems(1) p have head: "\<forall>q \<in> set its. \<not> eq k0 (fst q)" and tl: "wf_map eq its"
    by (auto simp: wf_map_def list_all_iff)
  show ?case
  proof (cases "(k, v) = p")
    case True
    show ?thesis
    proof (cases "(k', v') = p")
      case True
      with \<open>(k, v) = p\<close> show ?thesis by simp
    next
      case False
      with Cons.prems(3) have "(k', v') \<in> set its" by simp
      with head have "\<not> eq k0 k'" by auto
      with True p Cons.prems(4) show ?thesis by simp
    qed
  next
    case False
    with Cons.prems(2) have in1: "(k, v) \<in> set its" by simp
    show ?thesis
    proof (cases "(k', v') = p")
      case True
      from in1 head have "\<not> eq k0 k" by auto
      moreover from True p Cons.prems(4) s have "eq k0 k" by (auto dest: sympD)
      ultimately show ?thesis by simp
    next
      case False
      with Cons.prems(3) have "(k', v') \<in> set its" by simp
      with Cons.IH [OF tl in1 _ Cons.prems(4)] show ?thesis by simp
    qed
  qed
qed

section \<open>Facts about the loops\<close>

lemma map_delete_head:
  assumes s: "symp eq" and wf: "wf_map eq ((k, v) # rest)" and self: "eq k k"
  shows "map_delete eq k ((k, v) # rest) = rest"
proof -
  from wf have "\<forall>p \<in> set rest. \<not> eq k (fst p)"
    by (auto simp: wf_map_def list_all_iff)
  with s have "\<forall>p \<in> set rest. \<not> eq (fst p) k"
    by (auto dest: sympD)
  then have "map_delete eq k rest = rest" by (rule map_delete_id)
  with self show ?thesis by simp
qed

lemma deleteKeys_take:
  assumes s: "symp eq"
  shows "wf_map eq its \<Longrightarrow> self_equal eq its \<Longrightarrow>
         deleteKeys eq (take n (map fst its)) its = drop n its"
proof (induction its arbitrary: n)
  case Nil
  then show ?case by (simp add: deleteKeys_Nil)
next
  case (Cons p its)
  obtain k v where p: "p = (k, v)" by (cases p)
  from Cons.prems p have wf': "wf_map eq its" and self': "self_equal eq its" and kk: "eq k k"
    by (simp_all add: wf_map_def self_equal_def)
  show ?case
  proof (cases n)
    case 0
    then show ?thesis by simp
  next
    case (Suc n')
    have "map_delete eq k ((k, v) # its) = its"
      using s Cons.prems(1) kk unfolding p by (rule map_delete_head)
    then have "deleteKeys eq (take n (map fst (p # its))) (p # its)
                 = deleteKeys eq (take n' (map fst its)) its"
      using Suc p by simp
    also have "\<dots> = drop n' its" using wf' self' by (rule Cons.IH)
    finally show ?thesis using Suc by simp
  qed
qed

lemma evictLoop_deleteKeys:
  "i < x \<Longrightarrow> evictLoop eq x i ks its = deleteKeys eq (take (nat (x - i)) ks) its"
proof (induction ks arbitrary: i its)
  case Nil
  then show ?case by simp
next
  case (Cons k ks)
  have "nat (x - i) = Suc (nat (x - (i + 1)))"
    using Cons.prems by simp
  then have t: "take (nat (x - i)) (k # ks) = k # take (nat (x - (i + 1))) ks"
    by simp
  show ?case
  proof (cases "i + 1 \<ge> x \<or> length (map_delete eq k its) = 0")
    case True
    then show ?thesis
      using Cons.prems t by (auto simp: Let_def deleteKeys_Nil)
  next
    case False
    then have "i + 1 < x" by simp
    from Cons.IH [OF this] False t show ?thesis by (simp add: Let_def)
  qed
qed

lemma evictFirst_filter: "\<exists>Q. evictFirst eq its = filter Q its"
proof (cases its)
  case Nil
  then show ?thesis by simp
next
  case (Cons p rest)
  obtain k v where "p = (k, v)" by (cases p)
  with Cons have "evictFirst eq its = filter (\<lambda>p. \<not> eq (fst p) k) its"
    by (simp add: map_delete_filter)
  then show ?thesis by blast
qed

lemma evictFirst_tl:
  assumes s: "symp eq" and wf: "wf_map eq its" and self: "self_equal eq its"
  shows "evictFirst eq its = tl its"
proof (cases its)
  case Nil
  then show ?thesis by simp
next
  case (Cons p rest)
  obtain k v where p: "p = (k, v)" by (cases p)
  from self Cons p have "eq k k" by (simp add: self_equal_def)
  with s wf Cons p have "map_delete eq k ((k, v) # rest) = rest"
    by (intro map_delete_head) simp_all
  with Cons p show ?thesis by simp
qed

lemma evictForKey_filter: "\<exists>Q. evictForKey eq mx key its = filter Q its"
proof (cases "int (length its) + 1 > mx \<and> map_lookup eq its key = None")
  case True
  then have "evictForKey eq mx key its = evictFirst eq its"
    by (simp add: evictForKey_def)
  with evictFirst_filter [of eq its] show ?thesis by simp
next
  case False
  then have "evictForKey eq mx key its = filter (\<lambda>_. True) its"
    by (auto simp: evictForKey_def split: option.splits)
  then show ?thesis by blast
qed

lemma evictForKey_present:
  "map_lookup eq its key \<noteq> None \<Longrightarrow> evictForKey eq mx key its = its"
  by (auto simp: evictForKey_def)

lemma evictForKey_room:
  "int (length its) + 1 \<le> mx \<Longrightarrow> evictForKey eq mx key its = its"
  by (simp add: evictForKey_def)

lemma evictForKey_full:
  assumes s: "symp eq" and wf: "wf_map eq its" and self: "self_equal eq its"
    and full: "mx \<le> int (length its)" and new: "map_lookup eq its key = None"
  shows "evictForKey eq mx key its = tl its"
  using full new evictFirst_tl [OF s wf self] by (simp add: evictForKey_def)

lemma evictForBatch_clear:
  "mx < int (length its) + lenm \<Longrightarrow> int (length its) \<le> int (length its) + lenm - mx \<Longrightarrow>
   evictForBatch eq mx lenm its = []"
  by (simp add: evictForBatch_def Let_def)

lemma evictForBatch_keep:
  "int (length its) + lenm \<le> mx \<Longrightarrow> evictForBatch eq mx lenm its = its"
  by (simp add: evictForBatch_def Let_def)

lemma evictForBatch_loop:
  assumes over: "mx < int (length its) + lenm"
    and part: "int (length its) + lenm - mx < int (length its)"
  shows "evictForBatch eq mx lenm its
           = deleteKeys eq (take (nat (int (length its) + lenm - mx)) (map fst its)) its"
proof -
  have "evictForBatch eq mx lenm its
          = evictLoop eq (int (length its) + lenm - mx) 0 (map fst its) its"
    using over part by (simp add: evictForBatch_def Let_def)
  also have "\<dots> = deleteKeys eq (take (nat (int (length its) + lenm - mx)) (map fst its)) its"
    using over evictLoop_deleteKeys [of 0 "int (length its) + lenm - mx" eq "map fst its" its]
    by simp
  finally show ?thesis .
qed

lemma evictForBatch_drop:
  assumes s: "symp eq" and wf: "wf_map eq its" and self: "self_equal eq its"
    and over: "mx < int (length its) + lenm"
    and part: "int (length its) + lenm - mx < int (length its)"
  shows "evictForBatch eq mx lenm its = drop (nat (int (length its) + lenm - mx)) its"
    and "int (length (evictForBatch eq mx lenm its)) = mx - lenm"
proof -
  define x where "x = int (length its) + lenm - mx"
  have x: "0 < x" "x < int (length its)" using over part by (simp_all add: x_def)
  show e: "evictForBatch eq mx lenm its = drop (nat (int (length its) + lenm - mx)) its"
    using evictForBatch_loop [OF over part] deleteKeys_take [OF s wf self] by simp
  have "nat x \<le> length its" using x by linarith
  then have "int (length its - nat x) = int (length its) - int (nat x)"
    by simp
  also have "\<dots> = int (length its) - x" using x by simp
  finally have "int (length (drop (nat x) its)) = mx - lenm"
    by (simp add: x_def)
  with e show "int (length (evictForBatch eq mx lenm its)) = mx - lenm"
    by (simp add: x_def)
qed


lemma wf_map_filter: "wf_map eq its \<Longrightarrow> wf_map eq (filter Q its)"
  by (simp add: wf_map_def distinct_keys_filter)


lemma wf_evictForKey: "wf_map eq its \<Longrightarrow> wf_map eq (evictForKey eq mx key its)"
  using evictForKey_filter [of eq mx key its] by (auto simp: wf_map_filter)



lemma length_setEntries_le:
  "length (setEntries eq m e its) \<le> length its + length m"
proof (induction m arbitrary: its)
  case Nil
  then show ?case by simp
next
  case (Cons p m)
  obtain key val where p: "p = (key, val)" by (cases p)
  have "length (setEntries eq m e (map_store eq key \<lparr>ivalue = val, expiration = e\<rparr> its))
        \<le> length (map_store eq key \<lparr>ivalue = val, expiration = e\<rparr> its) + length m"
    by (rule Cons.IH)
  also have "\<dots> \<le> Suc (length its) + length m"
    by (simp add: length_map_store)
  finally show ?case using p by simp
qed


lemma length_setEntries_fresh:
  "wf_map eq m \<Longrightarrow> \<forall>p \<in> set its. \<forall>q \<in> set m. \<not> eq (fst p) (fst q) \<Longrightarrow>
   length (setEntries eq m e its) = length its + length m"
proof (induction m arbitrary: its)
  case Nil
  then show ?case by simp
next
  case (Cons p m)
  obtain key val where p: "p = (key, val)" by (cases p)
  let ?its' = "map_store eq key \<lparr>ivalue = val, expiration = e\<rparr> its"
  from Cons.prems(1) p have head: "\<forall>q \<in> set m. \<not> eq key (fst q)" and wf': "wf_map eq m"
    by (auto simp: wf_map_def list_all_iff)
  from Cons.prems(2) p have none: "map_lookup eq its key = None"
    by (simp add: map_lookup_None_iff)
  then have keys: "map fst ?its' = map fst its @ [key]" and len: "length ?its' = Suc (length its)"
    by (simp_all add: map_store_new)
  have "\<forall>p' \<in> set ?its'. \<forall>q \<in> set m. \<not> eq (fst p') (fst q)"
  proof (intro ballI)
    fix p' q assume p': "p' \<in> set ?its'" and q: "q \<in> set m"
    from p' have "fst p' \<in> set (map fst ?its')" by simp
    then have "fst p' \<in> fst ` set its \<or> fst p' = key" using keys by auto
    then show "\<not> eq (fst p') (fst q)"
      using Cons.prems(2) head q by auto
  qed
  from Cons.IH [OF wf' this] len p show ?case by simp
qed

lemma length_setEntries_empty:
  "wf_map eq m \<Longrightarrow> length (setEntries eq m e []) = length m"
  using length_setEntries_fresh [of eq m "[]" e] by simp

lemma collectExpired_filter:
  "collectExpired now its keys = keys @ map fst (filter (\<lambda>p. isExpired (snd p) now) its)"
  by (induction its arbitrary: keys) (auto simp: case_prod_beta)

lemma map_lookup_deleteKeys:
  assumes s: "symp eq" and t: "transp eq"
  shows "map_lookup eq (deleteKeys eq ks its) k
           = (if \<exists>key \<in> set ks. eq key k then None else map_lookup eq its k)"
  by (induction ks arbitrary: its) (auto simp: map_lookup_delete [OF s t])

lemma CleanExpired_filter:
  assumes s: "symp eq" and wf: "wf_map eq (items c)" and self: "self_equal eq (items c)"
  shows "items (CleanExpired eq now c) = filter (\<lambda>p. \<not> isExpired (snd p) now) (items c)"
proof -
  let ?ks = "collectExpired now (items c) []"
  have ks: "set ?ks = {k. \<exists>it. (k, it) \<in> set (items c) \<and> isExpired it now}"
    by (auto simp: collectExpired_filter image_iff)
  have "filter (\<lambda>p. \<forall>key \<in> set ?ks. \<not> eq (fst p) key) (items c)
          = filter (\<lambda>p. \<not> isExpired (snd p) now) (items c)"
  proof (rule filter_cong [OF refl])
    fix p assume p: "p \<in> set (items c)"
    obtain k it where kit: "p = (k, it)" by (cases p)
    from self p kit have kk: "eq k k" by (auto simp: self_equal_def list_all_iff)
    show "(\<forall>key \<in> set ?ks. \<not> eq (fst p) key) = (\<not> isExpired (snd p) now)"
    proof
      assume a: "\<forall>key \<in> set ?ks. \<not> eq (fst p) key"
      show "\<not> isExpired (snd p) now"
      proof
        assume "isExpired (snd p) now"
        with p kit have "k \<in> set ?ks" unfolding ks by auto
        with a kit kk show False by auto
      qed
    next
      assume b: "\<not> isExpired (snd p) now"
      show "\<forall>key \<in> set ?ks. \<not> eq (fst p) key"
      proof
        fix key assume "key \<in> set ?ks"
        then obtain it' where e: "(key, it') \<in> set (items c)" "isExpired it' now"
          unfolding ks by auto
        show "\<not> eq (fst p) key"
        proof
          assume "eq (fst p) key"
          then have "(k, it) = (key, it')"
            using wf_map_unique [OF s wf _ e(1), of k it] p kit by simp
          with e(2) b kit show False by simp
        qed
      qed
    qed
  qed
  then show ?thesis by (simp add: CleanExpired_def Let_def deleteKeys_filter)
qed

lemma map_lookup_CleanExpired:
  assumes s: "symp eq" and t: "transp eq" and wf: "wf_map eq (items c)"
  shows "map_lookup eq (items (CleanExpired eq now c)) k =
     (case map_lookup eq (items c) k of
        None \<Rightarrow> None
      | Some it \<Rightarrow> if isExpired it now then None else Some it)"
proof -
  let ?ks = "collectExpired now (items c) []"
  have ks: "set ?ks = {k. \<exists>it. (k, it) \<in> set (items c) \<and> isExpired it now}"
    by (auto simp: collectExpired_filter image_iff)
  have eq1: "map_lookup eq (items (CleanExpired eq now c)) k
          = (if \<exists>key \<in> set ?ks. eq key k then None else map_lookup eq (items c) k)"
    by (simp add: CleanExpired_def Let_def map_lookup_deleteKeys [OF s t])
  show ?thesis
  proof (cases "map_lookup eq (items c) k")
    case None
    with eq1 show ?thesis by simp
  next
    case (Some it)
    then obtain k0 where k0: "(k0, it) \<in> set (items c)" "eq k0 k"
      by (auto dest: map_lookup_SomeD)
    have "(\<exists>key \<in> set ?ks. eq key k) = isExpired it now"
    proof
      assume "\<exists>key \<in> set ?ks. eq key k"
      then obtain key it' where e: "(key, it') \<in> set (items c)" "isExpired it' now" "eq key k"
        unfolding ks by auto
      from e(3) k0(2) s t have "eq key k0" by (meson sympD transpD)
      from wf_map_unique [OF s wf e(1) k0(1) this] e(2) show "isExpired it now" by simp
    next
      assume "isExpired it now"
      with k0 have "k0 \<in> set ?ks" unfolding ks by auto
      with k0(2) show "\<exists>key \<in> set ?ks. eq key k" by auto
    qed
    with eq1 Some show ?thesis by simp
  qed
qed

section \<open>Facts about the operations\<close>

text \<open>
  With the equality of HOL for \<^verbatim>\<open>==\<close> (strings, integers and every key type whose equal
  keys are identical) the lookup is \<open>map_of\<close>, the invariant is distinctness of the keys,
  and every key equals itself.
\<close>

lemma map_lookup_eq_map_of: "map_lookup (=) its key = map_of its key"
  by (induction its) auto

lemma wf_map_eq_distinct: "wf_map (=) its = distinct (map fst its)"
  unfolding wf_map_def by (induction its) (auto simp: list_all_iff)

lemma self_equal_eq: "self_equal (=) its"
  by (simp add: self_equal_def list_all_iff)

lemma items_sized_SetWithTTL:
  "items (sized_cache (cacheWithSize_SetWithTTL eq now key val ttl w))
     = map_store eq key \<lparr>ivalue = val, expiration = expirationFor now ttl\<rparr>
         (evictForKey eq (maxSize w) key (items (sized_cache w)))"
  by (simp add: cacheWithSize_SetWithTTL_def Let_def)

lemma items_sized_SetAllWithTTL:
  "items (sized_cache (cacheWithSize_SetAllWithTTL eq now m ttl w))
     = setEntries eq m (expirationFor now ttl)
         (evictForBatch eq (maxSize w) (int (length m)) (items (sized_cache w)))"
  by (simp add: cacheWithSize_SetAllWithTTL_def Let_def)

lemma length_sized_SetWithTTL:
  assumes s: "symp eq" and wf: "wf_map eq (items (sized_cache w))"
    and self: "self_equal eq (items (sized_cache w))" and mx: "0 < maxSize w"
  shows "Size (sized_cache (cacheWithSize_SetWithTTL eq now key val ttl w))
           \<le> max (maxSize w) (Size (sized_cache w))"
proof -
  let ?its = "items (sized_cache w)"
  let ?ev = "evictForKey eq (maxSize w) key ?its"
  have le: "length (items (sized_cache (cacheWithSize_SetWithTTL eq now key val ttl w)))
              \<le> Suc (length ?ev)"
    by (simp add: items_sized_SetWithTTL length_map_store)
  show ?thesis
  proof (cases "map_lookup eq ?its key = None")
    case False
    then have "?ev = ?its" by (rule evictForKey_present)
    with False show ?thesis
      by (auto simp: Size_def items_sized_SetWithTTL length_map_store)
  next
    case True
    show ?thesis
    proof (cases "maxSize w \<le> int (length ?its)")
      case full: True
      with mx have ne: "?its \<noteq> []" by auto
      have "?ev = tl ?its" using s wf self full True by (rule evictForKey_full)
      with ne have "Suc (length ?ev) = length ?its" by simp
      with le show ?thesis by (simp add: Size_def)
    next
      case False
      then have "?ev = ?its" by (simp add: evictForKey_room)
      with le False show ?thesis by (simp add: Size_def)
    qed
  qed
qed

lemma length_sized_SetAllWithTTL:
  assumes s: "symp eq" and wf: "wf_map eq (items (sized_cache w))"
    and self: "self_equal eq (items (sized_cache w))"
  shows "Size (sized_cache (cacheWithSize_SetAllWithTTL eq now m ttl w))
           \<le> max (maxSize w) (int (length m))"
proof -
  let ?its = "items (sized_cache w)"
  let ?ev = "evictForBatch eq (maxSize w) (int (length m)) ?its"
  have le: "length (items (sized_cache (cacheWithSize_SetAllWithTTL eq now m ttl w)))
              \<le> length ?ev + length m"
    by (simp add: items_sized_SetAllWithTTL length_setEntries_le)
  show ?thesis
  proof (cases "maxSize w < int (length ?its) + int (length m)")
    case False
    then have "?ev = ?its" by (simp add: evictForBatch_keep)
    with le False show ?thesis by (simp add: Size_def)
  next
    case True
    show ?thesis
    proof (cases "int (length ?its) \<le> int (length ?its) + int (length m) - maxSize w")
      case True
      with \<open>maxSize w < int (length ?its) + int (length m)\<close> have "?ev = []"
        by (rule evictForBatch_clear)
      with le show ?thesis by (simp add: Size_def)
    next
      case False
      then have part: "int (length ?its) + int (length m) - maxSize w < int (length ?its)"
        by simp
      have "int (length ?ev) = maxSize w - int (length m)"
        using s wf self True part by (rule evictForBatch_drop(2))
      with le show ?thesis by (simp add: Size_def)
    qed
  qed
qed

lemma length_sized_SetAllWithTTL_big:
  assumes wfm: "wf_map eq m" and big: "maxSize w < int (length m)"
  shows "Size (sized_cache (cacheWithSize_SetAllWithTTL eq now m ttl w)) = int (length m)"
proof -
  have "evictForBatch eq (maxSize w) (int (length m)) (items (sized_cache w)) = []"
    using big by (intro evictForBatch_clear) simp_all
  then show ?thesis
    using wfm by (simp add: Size_def items_sized_SetAllWithTTL length_setEntries_empty)
qed

lemma sint_add_no_overflow:
  fixes a b :: int64
  assumes "0 \<le> sint b" "sint a + sint b < 2 ^ 63"
  shows "sint (a + b) = sint a + sint b"
proof -
  have "- (2 ^ 63) \<le> sint a" using sint_ge [of a] by simp
  then have "- (2 ^ 63) \<le> sint a + sint b" using assms(1) by simp
  then show ?thesis
    using assms(2) by (simp add: sint_word_add signed_take_bit_int_eq_self)
qed

lemma items_unsized_SetWithTTL:
  "items (unsized_cache (cacheWithoutSize_SetWithTTL eq now key val ttl w))
     = map_store eq key \<lparr>ivalue = val, expiration = expirationFor now ttl\<rparr>
         (items (unsized_cache w))"
  by (simp add: cacheWithoutSize_SetWithTTL_def Let_def)

text \<open>
  What \<^verbatim>\<open>New\<close> leaves in the lifecycle fields: the task runs exactly when the cleanup
  interval is positive, and then the stop channel is open. No operation other than
  \<^verbatim>\<open>New\<close> and \<^verbatim>\<open>Close\<close> writes these fields.
\<close>

lemma New_lifecycle:
  "running (core (New dTTL ci mx :: ('k, 'v) Cache)) = (0 < sint ci)
   \<and> done_ch (core (New dTTL ci mx :: ('k, 'v) Cache)) = (if 0 < sint ci then ChanOpen else ChanNil)
   \<and> items (core (New dTTL ci mx :: ('k, 'v) Cache)) = []"
  by (simp add: New_def resetItems_def Let_def)

lemma lifecycle_unchanged:
  "running (CleanExpired eq now c) = running c \<and> done_ch (CleanExpired eq now c) = done_ch c
   \<and> running (Remove eq key c) = running c \<and> done_ch (Remove eq key c) = done_ch c
   \<and> running (resetItems c) = running c \<and> done_ch (resetItems c) = done_ch c
   \<and> running (snd (Get eq zeroV key c)) = running c
   \<and> done_ch (snd (Get eq zeroV key c)) = done_ch c"
  by (simp add: CleanExpired_def Remove_def resetItems_def Get_def Let_def split: option.splits)

lemma lifecycle_unchanged_writes:
  "running (core (Cache_Set eq now key val w)) = running (core w)
   \<and> done_ch (core (Cache_Set eq now key val w)) = done_ch (core w)
   \<and> running (core (Cache_SetAll eq now m w)) = running (core w)
   \<and> done_ch (core (Cache_SetAll eq now m w)) = done_ch (core w)"
  by (cases w)
     (simp_all add: cacheWithSize_Set_def cacheWithSize_SetWithTTL_def cacheWithSize_SetAll_def
        cacheWithSize_SetAllWithTTL_def cacheWithoutSize_Set_def cacheWithoutSize_SetWithTTL_def
        cacheWithoutSize_SetAll_def cacheWithoutSize_SetAllWithTTL_def Let_def)

section \<open>The size-cap scenario\<close>

text \<open>
  Claim C2. On the cache built by \<^verbatim>\<open>New(0,0,1)\<close> with string keys, after \<^verbatim>\<open>Set("a",1)\<close>,
  \<^verbatim>\<open>Set("b",2)\<close>, \<^verbatim>\<open>Set("c",3)\<close> the size is 1 and the one remaining key is one of a, b,
  c; after a following \<^verbatim>\<open>SetAll\<close> of the three entries d, e, f the size is 3. The clock
  readings \<open>n1\<close> to \<open>n4\<close> of the four calls are arbitrary.
\<close>

theorem size_cap_scenario:
  "Cache_Size (Cache_Set (=) n3 ''c'' (3::int)
      (Cache_Set (=) n2 ''b'' 2 (Cache_Set (=) n1 ''a'' 1 (New 0 0 1)))) = 1
   \<and> map fst (items (core
        (Cache_Set (=) n3 ''c'' (3::int)
           (Cache_Set (=) n2 ''b'' 2 (Cache_Set (=) n1 ''a'' 1 (New 0 0 1))))))
       \<in> {[''a''], [''b''], [''c'']}
   \<and> Cache_Size (Cache_SetAll (=) n4 [(''d'', 4), (''e'', 5), (''f'', 6)]
        (Cache_Set (=) n3 ''c'' (3::int)
           (Cache_Set (=) n2 ''b'' 2 (Cache_Set (=) n1 ''a'' 1 (New 0 0 1))))) = 3"
  by (simp add: New_def Cache_Size_def Size_def cacheWithSize_Set_def cacheWithSize_SetWithTTL_def
      cacheWithSize_SetAll_def cacheWithSize_SetAllWithTTL_def evictForBatch_def
      expirationFor_def evictForKey_def resetItems_def Let_def)

section \<open>The sweep\<close>

text \<open>
  Claim C5, as amended. On a store in which every key equals itself, \<^verbatim>\<open>CleanExpired\<close>,
  with the clock read once as \<open>now\<close>, deletes exactly the entries that are expired at
  \<open>now\<close>: the store it leaves holds the entries that were not expired, each with its value
  and expiration, in their old order, and no other entry. So a lookup finds nothing for a
  key that was absent or whose entry was expired, and the old entry otherwise.
\<close>

theorem CleanExpired_exact:
  assumes s: "symp eq" and t: "transp eq"
    and wf: "wf_map eq (items c)" and self: "self_equal eq (items c)"
  shows "items (CleanExpired eq now c) = filter (\<lambda>p. \<not> isExpired (snd p) now) (items c)
     \<and> map_lookup eq (items (CleanExpired eq now c)) k =
         (case map_lookup eq (items c) k of
            None \<Rightarrow> None
          | Some it \<Rightarrow> if isExpired it now then None else Some it)
     \<and> wf_map eq (items (CleanExpired eq now c))"
proof -
  have "wf_map eq (items (CleanExpired eq now c))"
    using wf by (simp add: CleanExpired_def Let_def wf_deleteKeys)
  with CleanExpired_filter [OF s wf self] map_lookup_CleanExpired [OF s t wf]
  show ?thesis by simp
qed

text \<open>
  Without the condition on the keys the claim fails: \<^verbatim>\<open>delete\<close> finds no entry for a NaN
  key, so an expired entry under NaN stays in the store after the sweep.
\<close>

theorem CleanExpired_exact_counterexample:
  "isExpired \<lparr>ivalue = 1::int, expiration = 100\<rparr> 200
   \<and> items (CleanExpired f64_eq 200
        \<lparr>items = [(NaN, \<lparr>ivalue = 1::int, expiration = 100\<rparr>), (Num 1, \<lparr>ivalue = 2, expiration = 100\<rparr>)],
         defaultTTL = 0, running = False, done_ch = ChanNil\<rparr>)
       = [(NaN, \<lparr>ivalue = 1, expiration = 100\<rparr>)]
   \<and> (NaN, \<lparr>ivalue = 1::int, expiration = 100\<rparr>) \<in> set (items (CleanExpired f64_eq 200
        \<lparr>items = [(NaN, \<lparr>ivalue = 1::int, expiration = 100\<rparr>), (Num 1, \<lparr>ivalue = 2, expiration = 100\<rparr>)],
         defaultTTL = 0, running = False, done_ch = ChanNil\<rparr>))"
  by (simp add: CleanExpired_def isExpired_def Let_def)

theorem CleanExpired_exact_witness:
  "symp ((=) :: string \<Rightarrow> string \<Rightarrow> bool) \<and> transp ((=) :: string \<Rightarrow> string \<Rightarrow> bool)
   \<and> wf_map (=) [(''a'', \<lparr>ivalue = 1::int, expiration = 100\<rparr>), (''b'', \<lparr>ivalue = 2, expiration = 0\<rparr>),
           (''c'', \<lparr>ivalue = 3, expiration = 300\<rparr>)]
   \<and> self_equal (=) [(''a'', \<lparr>ivalue = 1::int, expiration = 100\<rparr>), (''b'', \<lparr>ivalue = 2, expiration = 0\<rparr>),
           (''c'', \<lparr>ivalue = 3, expiration = 300\<rparr>)]
   \<and> items (CleanExpired (=) 200
         \<lparr>items = [(''a'', \<lparr>ivalue = 1::int, expiration = 100\<rparr>), (''b'', \<lparr>ivalue = 2, expiration = 0\<rparr>),
                   (''c'', \<lparr>ivalue = 3, expiration = 300\<rparr>)],
          defaultTTL = 0, running = False, done_ch = ChanNil\<rparr>)
       = [(''b'', \<lparr>ivalue = 2, expiration = 0\<rparr>), (''c'', \<lparr>ivalue = 3, expiration = 300\<rparr>)]
   \<and> map_lookup (=) (items (CleanExpired (=) 200
         \<lparr>items = [(''a'', \<lparr>ivalue = 1::int, expiration = 100\<rparr>), (''b'', \<lparr>ivalue = 2, expiration = 0\<rparr>),
                   (''c'', \<lparr>ivalue = 3, expiration = 300\<rparr>)],
          defaultTTL = 0, running = False, done_ch = ChanNil\<rparr>)) ''a'' = None"
  using CleanExpired_exact [where eq = "(=)" and now = 200 and k = "''a''"
          and c = "\<lparr>items = [(''a'', \<lparr>ivalue = 1::int, expiration = 100\<rparr>),
                   (''b'', \<lparr>ivalue = 2, expiration = 0\<rparr>), (''c'', \<lparr>ivalue = 3, expiration = 300\<rparr>)],
          defaultTTL = 0, running = False, done_ch = ChanNil\<rparr>"]
  by (simp add: wf_map_def self_equal_def isExpired_def)

section \<open>The read path\<close>

text \<open>
  Claim C6. \<^verbatim>\<open>GetSafe(key)\<close> reports found exactly when the lookup of the key finds an
  entry that is not expired at the current instant, and then returns that entry's value;
  for an absent key and for a present but expired one it returns the zero value and false.
  In every case the cache it leaves is the cache it was given.
\<close>

theorem GetSafe_spec:
  "snd (fst (GetSafe eq zeroV now key c))
     = (\<exists>it. map_lookup eq (items c) key = Some it \<and> \<not> isExpired it now)
   \<and> fst (GetSafe eq zeroV now key c) =
       (case map_lookup eq (items c) key of
          Some it \<Rightarrow> if isExpired it now then (zeroV, False) else (ivalue it, True)
        | None \<Rightarrow> (zeroV, False))
   \<and> snd (GetSafe eq zeroV now key c) = c"
  by (simp add: GetSafe_def split: option.splits)

text \<open>
  Claim C7. \<^verbatim>\<open>Get(key)\<close> reports found exactly when the store has a key equal to \<open>key\<close>,
  whatever the expiration of its entry, and then returns the stored value; for an absent
  key it returns the zero value and false. It leaves the cache as it was given.
  \<^verbatim>\<open>GetValue(key)\<close> returns the value component of \<^verbatim>\<open>Get(key)\<close>, and leaves the cache
  unchanged too.
\<close>

theorem Get_spec:
  "snd (fst (Get eq zeroV key c)) = (\<exists>k'. k' \<in> fst ` set (items c) \<and> eq k' key)
   \<and> fst (Get eq zeroV key c) =
       (case map_lookup eq (items c) key of
          Some it \<Rightarrow> (ivalue it, True)
        | None \<Rightarrow> (zeroV, False))
   \<and> snd (Get eq zeroV key c) = c
   \<and> GetValue eq zeroV key c = (fst (fst (Get eq zeroV key c)), c)"
proof (cases "map_lookup eq (items c) key")
  case None
  then have "\<not> (\<exists>k'. k' \<in> fst ` set (items c) \<and> eq k' key)"
    by (auto simp: map_lookup_None_iff)
  with None show ?thesis
    by (simp add: Get_def GetValue_def)
next
  case (Some it)
  then have "\<exists>k'. k' \<in> fst ` set (items c) \<and> eq k' key"
    by (auto dest!: map_lookup_SomeD simp: image_iff)
  with Some show ?thesis
    by (simp add: Get_def GetValue_def)
qed

text \<open>
  Claim C10. Expiration is strict: an entry is expired at \<open>now\<close> exactly when its
  expiration is not 0 and is strictly less than \<open>now\<close>; so an entry whose expiration equals
  the current time is not expired, and an entry with expiration 0 never is. \<^verbatim>\<open>GetSafe\<close> and
  \<^verbatim>\<open>CleanExpired\<close> use the same test: \<^verbatim>\<open>GetSafe\<close> finds a key exactly when its entry has
  expiration 0 or an expiration not before \<open>now\<close>, a sweep at \<open>now\<close> keeps exactly such
  entries, and so at one instant \<^verbatim>\<open>GetSafe\<close> finds a key exactly when the sweep keeps it.
\<close>

theorem expiry_uniform:
  "isExpired it now = (expiration it \<noteq> 0 \<and> sint (expiration it) < sint now)
   \<and> \<not> isExpired (it\<lparr>expiration := t\<rparr>) t
   \<and> \<not> isExpired (it\<lparr>expiration := 0\<rparr>) now
   \<and> (symp eq \<and> transp eq \<and> wf_map eq (items c) \<longrightarrow>
        snd (fst (GetSafe eq zeroV now key c))
          = (map_lookup eq (items (CleanExpired eq now c)) key \<noteq> None))
   \<and> snd (fst (GetSafe eq zeroV now key c))
       = (\<exists>e. map_lookup eq (items c) key = Some e
            \<and> (expiration e = 0 \<or> sint now \<le> sint (expiration e)))
   \<and> (symp eq \<and> transp eq \<and> wf_map eq (items c) \<longrightarrow>
        map_lookup eq (items (CleanExpired eq now c)) key
          = (case map_lookup eq (items c) key of
               None \<Rightarrow> None
             | Some e \<Rightarrow>
                 if expiration e = 0 \<or> sint now \<le> sint (expiration e) then Some e else None))"
proof -
  have sweep: "symp eq \<and> transp eq \<and> wf_map eq (items c) \<longrightarrow>
        map_lookup eq (items (CleanExpired eq now c)) key
          = (case map_lookup eq (items c) key of
               None \<Rightarrow> None
             | Some e \<Rightarrow>
                 if expiration e = 0 \<or> sint now \<le> sint (expiration e) then Some e else None)"
  proof
    assume a: "symp eq \<and> transp eq \<and> wf_map eq (items c)"
    then have "map_lookup eq (items (CleanExpired eq now c)) key =
       (case map_lookup eq (items c) key of
          None \<Rightarrow> None
        | Some it \<Rightarrow> if isExpired it now then None else Some it)"
      by (intro map_lookup_CleanExpired) simp_all
    then show "map_lookup eq (items (CleanExpired eq now c)) key
          = (case map_lookup eq (items c) key of
               None \<Rightarrow> None
             | Some e \<Rightarrow>
                 if expiration e = 0 \<or> sint now \<le> sint (expiration e) then Some e else None)"
      by (auto simp: isExpired_def split: option.splits)
  qed
  have safe: "snd (fst (GetSafe eq zeroV now key c))
       = (\<exists>e. map_lookup eq (items c) key = Some e
            \<and> (expiration e = 0 \<or> sint now \<le> sint (expiration e)))"
    by (auto simp: GetSafe_def isExpired_def split: option.splits)
  have agree: "symp eq \<and> transp eq \<and> wf_map eq (items c) \<longrightarrow>
        snd (fst (GetSafe eq zeroV now key c))
          = (map_lookup eq (items (CleanExpired eq now c)) key \<noteq> None)"
  proof
    assume a: "symp eq \<and> transp eq \<and> wf_map eq (items c)"
    with sweep have l: "map_lookup eq (items (CleanExpired eq now c)) key
          = (case map_lookup eq (items c) key of
               None \<Rightarrow> None
             | Some e \<Rightarrow>
                 if expiration e = 0 \<or> sint now \<le> sint (expiration e) then Some e else None)"
      by simp
    show "snd (fst (GetSafe eq zeroV now key c))
          = (map_lookup eq (items (CleanExpired eq now c)) key \<noteq> None)"
      unfolding l safe by (auto split: option.splits)
  qed
  have strict: "isExpired it now = (expiration it \<noteq> 0 \<and> sint (expiration it) < sint now)
   \<and> \<not> isExpired (it\<lparr>expiration := t\<rparr>) t
   \<and> \<not> isExpired (it\<lparr>expiration := 0\<rparr>) now"
    by (simp add: isExpired_def)
  from strict agree safe sweep show ?thesis by blast
qed

theorem expiry_uniform_witness:
  "symp ((=) :: string \<Rightarrow> string \<Rightarrow> bool) \<and> transp ((=) :: string \<Rightarrow> string \<Rightarrow> bool)
   \<and> wf_map (=) [(''a'', \<lparr>ivalue = 1::int, expiration = 200\<rparr>), (''b'', \<lparr>ivalue = 2, expiration = 199\<rparr>)]
   \<and> snd (fst (GetSafe (=) 0 200 ''a''
        \<lparr>items = [(''a'', \<lparr>ivalue = 1::int, expiration = 200\<rparr>), (''b'', \<lparr>ivalue = 2, expiration = 199\<rparr>)],
         defaultTTL = 0, running = False, done_ch = ChanNil\<rparr>))
   \<and> map_lookup (=) (items (CleanExpired (=) 200
        \<lparr>items = [(''a'', \<lparr>ivalue = 1::int, expiration = 200\<rparr>), (''b'', \<lparr>ivalue = 2, expiration = 199\<rparr>)],
         defaultTTL = 0, running = False, done_ch = ChanNil\<rparr>)) ''a'' \<noteq> None
   \<and> \<not> snd (fst (GetSafe (=) 0 200 ''b''
        \<lparr>items = [(''a'', \<lparr>ivalue = 1::int, expiration = 200\<rparr>), (''b'', \<lparr>ivalue = 2, expiration = 199\<rparr>)],
         defaultTTL = 0, running = False, done_ch = ChanNil\<rparr>))
   \<and> map_lookup (=) (items (CleanExpired (=) 200
        \<lparr>items = [(''a'', \<lparr>ivalue = 1::int, expiration = 200\<rparr>), (''b'', \<lparr>ivalue = 2, expiration = 199\<rparr>)],
         defaultTTL = 0, running = False, done_ch = ChanNil\<rparr>)) ''b'' = None"
  using expiry_uniform [where eq = "(=)" and it = "\<lparr>ivalue = 1::int, expiration = 200\<rparr>"
          and now = 200 and t = 200 and zeroV = 0 and key = "''a''"
          and c = "\<lparr>items = [(''a'', \<lparr>ivalue = 1::int, expiration = 200\<rparr>),
                    (''b'', \<lparr>ivalue = 2, expiration = 199\<rparr>)],
            defaultTTL = 0, running = False, done_ch = ChanNil\<rparr>"]
        expiry_uniform [where eq = "(=)" and it = "\<lparr>ivalue = 2::int, expiration = 199\<rparr>"
          and now = 200 and t = 200 and zeroV = 0 and key = "''b''"
          and c = "\<lparr>items = [(''a'', \<lparr>ivalue = 1::int, expiration = 200\<rparr>),
                    (''b'', \<lparr>ivalue = 2, expiration = 199\<rparr>)],
            defaultTTL = 0, running = False, done_ch = ChanNil\<rparr>"]
  by (simp add: wf_map_def isExpired_def GetSafe_def)

section \<open>The write path without a size limit\<close>

text \<open>
  Claim C8, as amended. For a key that equals itself, the unbounded
  \<^verbatim>\<open>SetWithTTL(key, value, ttl)\<close> stores, whatever the store held, the entry with expiration
  \<open>now + ttl\<close> when \<open>ttl > 0\<close> (the 64-bit sum, which is the integer sum unless that exceeds
  the int64 range) and with expiration 0 when \<open>ttl \<le> 0\<close>; such an entry is expired at no
  instant \<open>t\<close>. Keys not equal to \<open>key\<close> keep their entries, and an immediate \<^verbatim>\<open>Get(key)\<close>
  returns the value and true, also after \<^verbatim>\<open>Set\<close>.
\<close>

theorem unsized_SetWithTTL_spec:
  assumes s: "symp eq" and t: "transp eq" and kk: "eq key key"
  shows "(0 < sint ttl \<longrightarrow>
      map_lookup eq (items (unsized_cache (cacheWithoutSize_SetWithTTL eq now key val ttl w))) key
        = Some \<lparr>ivalue = val, expiration = now + ttl\<rparr>)
   \<and> (0 < sint ttl \<and> sint now + sint ttl < 2 ^ 63 \<longrightarrow>
        (\<exists>it. map_lookup eq
                 (items (unsized_cache (cacheWithoutSize_SetWithTTL eq now key val ttl w))) key
               = Some it
           \<and> sint (expiration it) = sint now + sint ttl))
   \<and> (sint ttl \<le> 0 \<longrightarrow>
        map_lookup eq (items (unsized_cache (cacheWithoutSize_SetWithTTL eq now key val ttl w))) key
          = Some \<lparr>ivalue = val, expiration = 0\<rparr>
        \<and> \<not> isExpired \<lparr>ivalue = val, expiration = 0\<rparr> t)
   \<and> (\<not> eq key k \<longrightarrow>
        map_lookup eq (items (unsized_cache (cacheWithoutSize_SetWithTTL eq now key val ttl w))) k
          = map_lookup eq (items (unsized_cache w)) k)
   \<and> fst (Get eq zeroV key (unsized_cache (cacheWithoutSize_SetWithTTL eq now key val ttl w)))
       = (val, True)
   \<and> fst (Get eq zeroV key (unsized_cache (cacheWithoutSize_Set eq now key val w)))
       = (val, True)"
  using kk
  by (auto simp: items_unsized_SetWithTTL cacheWithoutSize_Set_def map_lookup_store [OF s t]
      expirationFor_def Get_def isExpired_def sint_add_no_overflow)

text \<open>
  Without the condition on the key the claim fails: an entry stored under NaN is found by
  no lookup, so \<^verbatim>\<open>Get(NaN)\<close> right after \<^verbatim>\<open>Set(NaN, 1)\<close> returns the zero value and false.
\<close>

theorem unsized_SetWithTTL_spec_counterexample:
  "fst (Get f64_eq (0::int) NaN
     (unsized_cache (cacheWithoutSize_Set f64_eq 100 NaN 1
        \<lparr>unsized_cache = \<lparr>items = [], defaultTTL = 0, running = False, done_ch = ChanNil\<rparr>\<rparr>)))
   = (0, False)
   \<and> fst (Get f64_eq (0::int) NaN
     (unsized_cache (cacheWithoutSize_Set f64_eq 100 NaN 1
        \<lparr>unsized_cache = \<lparr>items = [], defaultTTL = 0, running = False, done_ch = ChanNil\<rparr>\<rparr>)))
   \<noteq> (1, True)"
  by (simp add: Get_def cacheWithoutSize_Set_def cacheWithoutSize_SetWithTTL_def
      expirationFor_def Let_def)

theorem unsized_SetWithTTL_spec_witness:
  "symp ((=) :: string \<Rightarrow> string \<Rightarrow> bool) \<and> transp ((=) :: string \<Rightarrow> string \<Rightarrow> bool)
   \<and> 0 < sint (5 :: int64) \<and> sint (100 :: int64) + sint (5 :: int64) < 2 ^ 63
   \<and> map_lookup (=) (items (unsized_cache (cacheWithoutSize_SetWithTTL (=) 100 ''k'' (7::int) 5
        \<lparr>unsized_cache = \<lparr>items = [(''k'', \<lparr>ivalue = 1, expiration = 50\<rparr>), (''j'', \<lparr>ivalue = 2, expiration = 0\<rparr>)],
           defaultTTL = 0, running = False, done_ch = ChanNil\<rparr>\<rparr>))) ''k''
       = Some \<lparr>ivalue = 7, expiration = 105\<rparr>
   \<and> sint (- 3 :: int64) \<le> 0
   \<and> map_lookup (=) (items (unsized_cache (cacheWithoutSize_SetWithTTL (=) 100 ''k'' (7::int) (- 3)
        \<lparr>unsized_cache = \<lparr>items = [(''k'', \<lparr>ivalue = 1, expiration = 50\<rparr>), (''j'', \<lparr>ivalue = 2, expiration = 0\<rparr>)],
           defaultTTL = 0, running = False, done_ch = ChanNil\<rparr>\<rparr>))) ''k''
       = Some \<lparr>ivalue = 7, expiration = 0\<rparr>
   \<and> ''k'' \<noteq> ''j''
   \<and> map_lookup (=) (items (unsized_cache (cacheWithoutSize_SetWithTTL (=) 100 ''k'' (7::int) 5
        \<lparr>unsized_cache = \<lparr>items = [(''k'', \<lparr>ivalue = 1, expiration = 50\<rparr>), (''j'', \<lparr>ivalue = 2, expiration = 0\<rparr>)],
           defaultTTL = 0, running = False, done_ch = ChanNil\<rparr>\<rparr>))) ''j''
       = Some \<lparr>ivalue = 2, expiration = 0\<rparr>"
  using unsized_SetWithTTL_spec [where eq = "(=)" and ttl = 5 and now = 100 and key = "''k''"
          and val = 7 and zeroV = 0 and k = "''j''" and t = 0
          and w = "\<lparr>unsized_cache = \<lparr>items = [(''k'', \<lparr>ivalue = 1::int, expiration = 50\<rparr>),
                     (''j'', \<lparr>ivalue = 2, expiration = 0\<rparr>)],
             defaultTTL = 0, running = False, done_ch = ChanNil\<rparr>\<rparr>"]
        unsized_SetWithTTL_spec [where eq = "(=)" and ttl = "- 3" and now = 100 and key = "''k''"
          and val = 7 and zeroV = 0 and k = "''j''" and t = 0
          and w = "\<lparr>unsized_cache = \<lparr>items = [(''k'', \<lparr>ivalue = 1::int, expiration = 50\<rparr>),
                     (''j'', \<lparr>ivalue = 2, expiration = 0\<rparr>)],
             defaultTTL = 0, running = False, done_ch = ChanNil\<rparr>\<rparr>"]
  by (simp add: cacheWithoutSize_SetWithTTL_def expirationFor_def)

section \<open>The write path with a size limit\<close>

text \<open>
  Claim C1, as amended. For the bounded variant with \<open>maxSize = M > 0\<close> and any prior
  store in which every key equals itself: after \<^verbatim>\<open>SetWithTTL\<close> or \<^verbatim>\<open>Set\<close> returns, the size
  is at most the larger of \<open>M\<close> and the size before the call (so at most \<open>M\<close> when it was at
  most \<open>M\<close> before); after \<^verbatim>\<open>SetAllWithTTL\<close> or \<^verbatim>\<open>SetAll\<close> returns, the size is at most the
  larger of \<open>M\<close> and \<^verbatim>\<open>len(map)\<close> (so at most \<open>M\<close> when the batch has at most \<open>M\<close>
  entries); and a batch with more than \<open>M\<close> entries leaves exactly \<^verbatim>\<open>len(map)\<close> entries in
  the store.
\<close>

theorem sized_size_bound:
  assumes s: "symp eq" and wf: "wf_map eq (items (sized_cache w))"
    and self: "self_equal eq (items (sized_cache w))" and mx: "0 < maxSize w"
  shows "Size (sized_cache (cacheWithSize_SetWithTTL eq now key val ttl w))
           \<le> max (maxSize w) (Size (sized_cache w))
       \<and> Size (sized_cache (cacheWithSize_Set eq now key val w))
           \<le> max (maxSize w) (Size (sized_cache w))
       \<and> Size (sized_cache (cacheWithSize_SetAllWithTTL eq now m ttl w))
           \<le> max (maxSize w) (int (length m))
       \<and> Size (sized_cache (cacheWithSize_SetAll eq now m w))
           \<le> max (maxSize w) (int (length m))
       \<and> (wf_map eq m \<and> maxSize w < int (length m) \<longrightarrow>
            Size (sized_cache (cacheWithSize_SetAllWithTTL eq now m ttl w)) = int (length m)
            \<and> Size (sized_cache (cacheWithSize_SetAll eq now m w)) = int (length m))"
  using length_sized_SetWithTTL [OF s wf self mx] length_sized_SetAllWithTTL [OF s wf self]
  by (simp add: cacheWithSize_Set_def cacheWithSize_SetAll_def length_sized_SetAllWithTTL_big)

text \<open>
  The bound \<open>Size() \<le> M\<close> itself fails for a batch larger than \<open>M\<close>: on the cache built
  by \<^verbatim>\<open>New(0,0,1)\<close> a \<^verbatim>\<open>SetAll\<close> of three entries leaves three entries. It also fails
  when the store holds a NaN key, which no \<^verbatim>\<open>delete\<close> removes: after \<^verbatim>\<open>Set(NaN, 1)\<close> a
  \<^verbatim>\<open>Set\<close> of another key leaves two entries.
\<close>

theorem sized_size_bound_counterexample:
  "\<not> Cache_Size (Cache_SetAll (=) 0 [(''d'', 4::int), (''e'', 5), (''f'', 6)] (New 0 0 1)) \<le> 1
   \<and> \<not> Cache_Size (Cache_Set f64_eq 0 (Num 2) (2::int) (Cache_Set f64_eq 0 NaN 1 (New 0 0 1))) \<le> 1"
  by (simp add: New_def Cache_Size_def Size_def cacheWithSize_SetAll_def
      cacheWithSize_SetAllWithTTL_def evictForBatch_def expirationFor_def resetItems_def Let_def
      cacheWithSize_Set_def cacheWithSize_SetWithTTL_def evictForKey_def)

theorem sized_size_bound_witness:
  "symp ((=) :: string \<Rightarrow> string \<Rightarrow> bool)
   \<and> wf_map (=) (items (sized_cache
      \<lparr>sized_cache = \<lparr>items = [(''a'', \<lparr>ivalue = 1::int, expiration = 0\<rparr>), (''b'', \<lparr>ivalue = 2, expiration = 0\<rparr>)],
         defaultTTL = 0, running = False, done_ch = ChanNil\<rparr>, maxSize = 2\<rparr>))
   \<and> self_equal (=) (items (sized_cache
      \<lparr>sized_cache = \<lparr>items = [(''a'', \<lparr>ivalue = 1::int, expiration = 0\<rparr>), (''b'', \<lparr>ivalue = 2, expiration = 0\<rparr>)],
         defaultTTL = 0, running = False, done_ch = ChanNil\<rparr>, maxSize = 2\<rparr>))
   \<and> Size (sized_cache (cacheWithSize_SetWithTTL (=) 100 ''c'' 3 50
      \<lparr>sized_cache = \<lparr>items = [(''a'', \<lparr>ivalue = 1::int, expiration = 0\<rparr>), (''b'', \<lparr>ivalue = 2, expiration = 0\<rparr>)],
         defaultTTL = 0, running = False, done_ch = ChanNil\<rparr>, maxSize = 2\<rparr>)) \<le> 2
   \<and> Size (sized_cache (cacheWithSize_SetAllWithTTL (=) 100 [(''c'', 3), (''d'', 4)] 50
      \<lparr>sized_cache = \<lparr>items = [(''a'', \<lparr>ivalue = 1::int, expiration = 0\<rparr>), (''b'', \<lparr>ivalue = 2, expiration = 0\<rparr>)],
         defaultTTL = 0, running = False, done_ch = ChanNil\<rparr>, maxSize = 2\<rparr>)) \<le> 2
   \<and> wf_map (=) [(''c'', 3::int), (''d'', 4), (''e'', 5)]
   \<and> Size (sized_cache (cacheWithSize_SetAllWithTTL (=) 100 [(''c'', 3), (''d'', 4), (''e'', 5)] 50
      \<lparr>sized_cache = \<lparr>items = [(''a'', \<lparr>ivalue = 1::int, expiration = 0\<rparr>), (''b'', \<lparr>ivalue = 2, expiration = 0\<rparr>)],
         defaultTTL = 0, running = False, done_ch = ChanNil\<rparr>, maxSize = 2\<rparr>)) = 3"
  using sized_size_bound [where eq = "(=)"
         and w = "\<lparr>sized_cache = \<lparr>items = [(''a'', \<lparr>ivalue = 1::int, expiration = 0\<rparr>),
            (''b'', \<lparr>ivalue = 2, expiration = 0\<rparr>)],
         defaultTTL = 0, running = False, done_ch = ChanNil\<rparr>, maxSize = 2\<rparr>"
         and now = 100 and key = "''c''" and val = 3 and ttl = 50 and m = "[(''c'', 3), (''d'', 4)]"]
        sized_size_bound [where eq = "(=)"
         and w = "\<lparr>sized_cache = \<lparr>items = [(''a'', \<lparr>ivalue = 1::int, expiration = 0\<rparr>),
            (''b'', \<lparr>ivalue = 2, expiration = 0\<rparr>)],
         defaultTTL = 0, running = False, done_ch = ChanNil\<rparr>, maxSize = 2\<rparr>"
         and now = 100 and key = "''c''" and val = 3 and ttl = 50
         and m = "[(''c'', 3), (''d'', 4), (''e'', 5)]"]
  by (simp add: wf_map_def self_equal_def Size_def)




text \<open>
  Claim C4, as amended. For the bounded \<^verbatim>\<open>SetWithTTL(key, value, ttl)\<close> with \<open>maxSize > 0\<close>,
  a key that equals itself and a store in which every key equals itself: if the key is not
  in the store and the store holds at least \<open>maxSize\<close> entries, one existing key (the
  victim) is removed, the new entry is added and the size is unchanged; if the key is in the
  store, nothing is evicted, that key's entry is replaced and the size is unchanged. In
  both cases the key maps to the given value afterwards.
\<close>

theorem sized_SetWithTTL_spec:
  fixes w :: "('k, 'v) cacheWithSize"
  defines "its \<equiv> items (sized_cache w)"
    and "its' \<equiv> \<lambda>eq now key val ttl.
           items (sized_cache (cacheWithSize_SetWithTTL eq now key val ttl w))"
  assumes s: "symp eq" and t: "transp eq"
    and wf: "wf_map eq its" and self: "self_equal eq its"
    and kk: "eq key key" and mx: "0 < maxSize w"
  shows "(map_lookup eq its key = None \<and> maxSize w \<le> int (length its) \<longrightarrow>
            (\<exists>victim. victim \<in> fst ` set its
               \<and> (\<forall>k. map_lookup eq (its' eq now key val ttl) k
                     = (if eq key k then Some \<lparr>ivalue = val, expiration = expirationFor now ttl\<rparr>
                        else if eq victim k then None
                        else map_lookup eq its k)))
            \<and> length (its' eq now key val ttl) = length its)
       \<and> (map_lookup eq its key \<noteq> None \<longrightarrow>
            (\<forall>k. map_lookup eq (its' eq now key val ttl) k
                  = (if eq key k then Some \<lparr>ivalue = val, expiration = expirationFor now ttl\<rparr>
                     else map_lookup eq its k))
            \<and> evictForKey eq (maxSize w) key its = its
            \<and> length (its' eq now key val ttl) = length its)
       \<and> fst (Get eq zeroV key (sized_cache (cacheWithSize_SetWithTTL eq now key val ttl w)))
           = (val, True)
       \<and> wf_map eq (its' eq now key val ttl)"
proof (intro conjI impI)
  let ?e = "\<lparr>ivalue = val, expiration = expirationFor now ttl\<rparr>"
  let ?ev = "evictForKey eq (maxSize w) key its"
  have upd: "its' eq now key val ttl = map_store eq key ?e ?ev"
    by (simp add: its'_def its_def items_sized_SetWithTTL)
  have look: "\<And>k. map_lookup eq (its' eq now key val ttl) k
                 = (if eq key k then Some ?e else map_lookup eq ?ev k)"
    unfolding upd using s t by (rule map_lookup_store)
  show "fst (Get eq zeroV key (sized_cache (cacheWithSize_SetWithTTL eq now key val ttl w)))
           = (val, True)"
    using look [of key] kk by (simp add: Get_def its'_def)
  show "wf_map eq (its' eq now key val ttl)"
    unfolding upd using s t wf by (intro wf_map_store wf_evictForKey)
  {
    assume a: "map_lookup eq its key \<noteq> None"
    then have same: "?ev = its" by (rule evictForKey_present)
    show "\<forall>k. map_lookup eq (its' eq now key val ttl) k
                  = (if eq key k then Some ?e else map_lookup eq its k)"
      using look same by simp
    show "evictForKey eq (maxSize w) key its = its" by (rule same)
    show "length (its' eq now key val ttl) = length its"
      using upd same a by (simp add: length_map_store)
  }
  {
    assume a: "map_lookup eq its key = None \<and> maxSize w \<le> int (length its)"
    then have new: "map_lookup eq its key = None" and full: "maxSize w \<le> int (length its)"
      by simp_all
    from mx full have ne: "its \<noteq> []" by auto
    then obtain k1 v1 rest where its: "its = (k1, v1) # rest" by (cases its) auto
    have ev: "?ev = tl its" using s wf self full new by (rule evictForKey_full)
    have "map_delete eq k1 its = rest"
      using s wf self unfolding its by (intro map_delete_head) (simp_all add: self_equal_def)
    with ev its have ev': "?ev = map_delete eq k1 its" by simp
    have "\<forall>k. map_lookup eq (its' eq now key val ttl) k
             = (if eq key k then Some ?e else if eq k1 k then None else map_lookup eq its k)"
      using look ev' by (simp add: map_lookup_delete [OF s t])
    moreover have "k1 \<in> fst ` set its" using its by simp
    ultimately show "\<exists>victim. victim \<in> fst ` set its
               \<and> (\<forall>k. map_lookup eq (its' eq now key val ttl) k
                     = (if eq key k then Some ?e
                        else if eq victim k then None
                        else map_lookup eq its k))"
      by blast
    have "map_lookup eq ?ev key = None"
      using new ev' by (simp add: map_lookup_delete [OF s t])
    then have "length (its' eq now key val ttl) = Suc (length ?ev)"
      using upd by (simp add: length_map_store)
    with ev ne show "length (its' eq now key val ttl) = length its" by simp
  }
qed

text \<open>
  Without the condition on the keys the claim fails: on the store that \<^verbatim>\<open>Set(NaN, 1)\<close>
  leaves under \<open>maxSize = 1\<close>, \<^verbatim>\<open>SetWithTTL\<close> of a new key calls \<^verbatim>\<open>delete\<close> on NaN, evicts
  nothing and leaves two entries.
\<close>

theorem sized_SetWithTTL_spec_counterexample:
  "map_lookup f64_eq (items (core (Cache_Set f64_eq 0 NaN (1::int) (New 0 0 1)))) (Num 2) = None
   \<and> Cache_Size (Cache_Set f64_eq 0 NaN (1::int) (New 0 0 1)) = 1
   \<and> map fst (items (sized_cache (cacheWithSize_SetWithTTL f64_eq 0 (Num 2) 2 0
        \<lparr>sized_cache = \<lparr>items = [(NaN, \<lparr>ivalue = 1::int, expiration = 0\<rparr>)],
           defaultTTL = 0, running = False, done_ch = ChanNil\<rparr>, maxSize = 1\<rparr>)))
       = [NaN, Num 2]
   \<and> \<not> length (items (sized_cache (cacheWithSize_SetWithTTL f64_eq 0 (Num 2) 2 0
        \<lparr>sized_cache = \<lparr>items = [(NaN, \<lparr>ivalue = 1::int, expiration = 0\<rparr>)],
           defaultTTL = 0, running = False, done_ch = ChanNil\<rparr>, maxSize = 1\<rparr>))) = 1
   \<and> New 0 0 1 = WithSize \<lparr>sized_cache = \<lparr>items = ([] :: (f64, int item) gomap),
           defaultTTL = 0, running = False, done_ch = ChanNil\<rparr>, maxSize = 1\<rparr>
   \<and> Cache_Set f64_eq 0 NaN (1::int) (New 0 0 1)
       = WithSize \<lparr>sized_cache = \<lparr>items = [(NaN, \<lparr>ivalue = 1::int, expiration = 0\<rparr>)],
           defaultTTL = 0, running = False, done_ch = ChanNil\<rparr>, maxSize = 1\<rparr>"
  by (simp add: New_def Cache_Size_def Size_def resetItems_def Let_def
      cacheWithSize_Set_def cacheWithSize_SetWithTTL_def evictForKey_def expirationFor_def)

theorem sized_SetWithTTL_spec_witness:
  "symp ((=) :: string \<Rightarrow> string \<Rightarrow> bool) \<and> transp ((=) :: string \<Rightarrow> string \<Rightarrow> bool)
   \<and> wf_map (=) [(''a'', \<lparr>ivalue = 1::int, expiration = 0\<rparr>), (''b'', \<lparr>ivalue = 2, expiration = 0\<rparr>)]
   \<and> self_equal (=) [(''a'', \<lparr>ivalue = 1::int, expiration = 0\<rparr>), (''b'', \<lparr>ivalue = 2, expiration = 0\<rparr>)]
   \<and> map_lookup (=) [(''a'', \<lparr>ivalue = 1::int, expiration = 0\<rparr>), (''b'', \<lparr>ivalue = 2, expiration = 0\<rparr>)] ''c''
       = None
   \<and> length (items (sized_cache (cacheWithSize_SetWithTTL (=) 100 ''c'' 3 50
      \<lparr>sized_cache = \<lparr>items = [(''a'', \<lparr>ivalue = 1::int, expiration = 0\<rparr>), (''b'', \<lparr>ivalue = 2, expiration = 0\<rparr>)],
         defaultTTL = 0, running = False, done_ch = ChanNil\<rparr>, maxSize = 2\<rparr>))) = 2
   \<and> map_lookup (=) [(''a'', \<lparr>ivalue = 1::int, expiration = 0\<rparr>), (''b'', \<lparr>ivalue = 2, expiration = 0\<rparr>)] ''b''
       \<noteq> None
   \<and> items (sized_cache (cacheWithSize_SetWithTTL (=) 100 ''b'' 3 50
      \<lparr>sized_cache = \<lparr>items = [(''a'', \<lparr>ivalue = 1::int, expiration = 0\<rparr>), (''b'', \<lparr>ivalue = 2, expiration = 0\<rparr>)],
         defaultTTL = 0, running = False, done_ch = ChanNil\<rparr>, maxSize = 2\<rparr>))
       = [(''a'', \<lparr>ivalue = 1, expiration = 0\<rparr>), (''b'', \<lparr>ivalue = 3, expiration = 150\<rparr>)]"
  using sized_SetWithTTL_spec [where eq = "(=)"
         and w = "\<lparr>sized_cache = \<lparr>items = [(''a'', \<lparr>ivalue = 1::int, expiration = 0\<rparr>),
            (''b'', \<lparr>ivalue = 2, expiration = 0\<rparr>)],
         defaultTTL = 0, running = False, done_ch = ChanNil\<rparr>, maxSize = 2\<rparr>"
         and now = 100 and key = "''c''" and val = 3 and ttl = 50 and zeroV = 0]
        sized_SetWithTTL_spec [where eq = "(=)"
         and w = "\<lparr>sized_cache = \<lparr>items = [(''a'', \<lparr>ivalue = 1::int, expiration = 0\<rparr>),
            (''b'', \<lparr>ivalue = 2, expiration = 0\<rparr>)],
         defaultTTL = 0, running = False, done_ch = ChanNil\<rparr>, maxSize = 2\<rparr>"
         and now = 100 and key = "''b''" and val = 3 and ttl = 50 and zeroV = 0]
  by (simp add: wf_map_def self_equal_def cacheWithSize_SetWithTTL_def evictForKey_def
      expirationFor_def Let_def)

section \<open>Closing\<close>

text \<open>
  Claim C9. \<^verbatim>\<open>Close\<close> is idempotent. On a cache whose task, if running, has an open stop
  channel (as \<^verbatim>\<open>New\<close> leaves it), the first call does not panic, closes the channel if the
  task was running and leaves it alone otherwise, clears the running flag and empties the
  store. A further call on the result does not panic and returns that same cache: it does
  not close the channel again, and the size is 0 after each call.
\<close>

theorem Close_idempotent:
  "(running c \<longrightarrow> done_ch c = ChanOpen) \<Longrightarrow>
     \<exists>c1. Close c = Inr c1 \<and> Size c1 = 0 \<and> \<not> running c1
        \<and> done_ch c1 = (if running c then ChanClosed else done_ch c)
        \<and> Close c1 = Inr c1"
  by (auto simp: Close_def Size_def)

theorem Close_idempotent_witness:
  "running (core (Cache_Set (=) 0 ''a'' (1::int) (New 0 5 0)))
   \<and> done_ch (core (Cache_Set (=) 0 ''a'' (1::int) (New 0 5 0))) = ChanOpen
   \<and> Size (core (Cache_Set (=) 0 ''a'' (1::int) (New 0 5 0))) = 1
   \<and> (\<exists>c1. Close (core (Cache_Set (=) 0 ''a'' (1::int) (New 0 5 0))) = Inr c1 \<and> Size c1 = 0
         \<and> \<not> running c1 \<and> done_ch c1 = ChanClosed \<and> Close c1 = Inr c1)"
  using Close_idempotent [of "core (Cache_Set (=) 0 ''a'' (1::int) (New 0 5 0))"]
  by (simp add: New_def resetItems_def cacheWithoutSize_Set_def cacheWithoutSize_SetWithTTL_def
      expirationFor_def Size_def Let_def)

end
